theory Spec2Isabelle
  imports Main
begin

section \<open>The linked-list queue (linked-list-queue.ts)\<close>

text \<open>
  The queue of the source is a closure over three variables, \<^verbatim>\<open>front\<close>, \<^verbatim>\<open>rear\<close> and
  \<^verbatim>\<open>size\<close>, and a chain of heap objects \<^verbatim>\<open>{ value, next }\<close>. The objects are mutated in
  place (\<^verbatim>\<open>rear.next = node\<close>) and a running iterator keeps a reference to one of them, so
  the model has an explicit store: the nodes a queue has allocated, in allocation order.
  An address is an index into that store, \<^verbatim>\<open>null\<close> is \<open>None\<close>. Nothing is ever freed in
  the model (JavaScript frees what is unreachable, which no program can observe).
  The number \<^verbatim>\<open>size\<close> is an \<open>int\<close>, so that \<^verbatim>\<open>size--\<close> is a real subtraction (a
  JavaScript number counts exactly up to \<open>2 ^ 53\<close>, more nodes than a heap holds).
\<close>

type_synonym addr = nat

record 'a node =
  node_value :: 'a
  node_next :: "addr option"

record 'a queue =
  heap :: "'a node list"
  front :: "addr option"
  rear :: "addr option"
  size_q :: int

definition createLinkedListQueue :: "'a queue" where
  "createLinkedListQueue = \<lparr>heap = [], front = None, rear = None, size_q = 0\<rparr>"

text \<open>\<^verbatim>\<open>enqueue\<close>: allocate \<^verbatim>\<open>{ value, next: null }\<close>, link it behind \<^verbatim>\<open>rear\<close>, count it.\<close>

definition enqueue :: "'a \<Rightarrow> 'a queue \<Rightarrow> 'a queue" where
  "enqueue v q =
     (let a = length (heap q);
          h = heap q @ [\<lparr>node_value = v, node_next = None\<rparr>]
      in case rear q of
           None \<Rightarrow> q\<lparr>heap := h, front := Some a, rear := Some a, size_q := size_q q + 1\<rparr>
         | Some r \<Rightarrow> q\<lparr>heap := h[r := (h ! r)\<lparr>node_next := Some a\<rparr>], rear := Some a,
                        size_q := size_q q + 1\<rparr>)"

text \<open>\<^verbatim>\<open>dequeue\<close>: \<^verbatim>\<open>null\<close> (here \<open>None\<close>) on an empty queue, else the front value.\<close>

definition dequeue :: "'a queue \<Rightarrow> 'a option \<times> 'a queue" where
  "dequeue q =
     (case front q of
        None \<Rightarrow> (None, q)
      | Some f \<Rightarrow>
          (let nd = heap q ! f;
               q1 = q\<lparr>front := node_next nd\<rparr>;
               q2 = (if front q1 = None then q1\<lparr>rear := None\<rparr> else q1)
           in (Some (node_value nd), q2\<lparr>size_q := size_q q2 - 1\<rparr>)))"

text \<open>
  \<^verbatim>\<open>[Symbol.iterator]\<close> is a generator function. Calling it runs none of its body; the
  generator object starts suspended at the top, and \<^verbatim>\<open>let node = front\<close> is executed by the
  first call of \<^verbatim>\<open>next()\<close>. After a \<^verbatim>\<open>yield\<close> the generator holds the node it yielded,
  and the following \<^verbatim>\<open>next()\<close> reads that node's \<^verbatim>\<open>next\<close> field as it is then.
\<close>

datatype generator = SuspendedStart | SuspendedYield addr | Completed

fun iterator_next :: "'a queue \<Rightarrow> generator \<Rightarrow> 'a option \<times> generator" where
  "iterator_next q SuspendedStart =
     (case front q of
        None \<Rightarrow> (None, Completed)
      | Some a \<Rightarrow> (Some (node_value (heap q ! a)), SuspendedYield a))"
| "iterator_next q (SuspendedYield a) =
     (case node_next (heap q ! a) of
        None \<Rightarrow> (None, Completed)
      | Some b \<Rightarrow> (Some (node_value (heap q ! b)), SuspendedYield b))"
| "iterator_next q Completed = (None, Completed)"

text \<open>
  A \<^verbatim>\<open>for (const x of queue) body\<close> loop whose body does not touch the queue: it asks the
  generator for the next element until it is done. The loop has no bound of its own (on
  a cyclic chain it would run forever), hence the option: \<open>None\<close> is a loop that never
  ends.
\<close>

partial_function (option) for_of ::
  "'a queue \<Rightarrow> ('a \<Rightarrow> 's \<Rightarrow> 's) \<Rightarrow> generator \<Rightarrow> 's \<Rightarrow> 's option" where
  "for_of q body g s =
     (case iterator_next q g of
        (None, g') \<Rightarrow> Some s
      | (Some x, g') \<Rightarrow> for_of q body g' (body x s))"

declare for_of.simps [code]

text \<open>The values on the chain that starts at a pointer, at most \<open>n\<close> of them.\<close>

fun chain_values :: "'a node list \<Rightarrow> addr option \<Rightarrow> nat \<Rightarrow> 'a list" where
  "chain_values h None n = []"
| "chain_values h (Some a) 0 = []"
| "chain_values h (Some a) (Suc n) = node_value (h ! a) # chain_values h (node_next (h ! a)) n"

definition elems :: "'a queue \<Rightarrow> 'a list" where
  "elems q = chain_values (heap q) (front q) (length (heap q))"

text \<open>
  Representation invariant. Every node is allocated at the next free address and linked
  behind the node allocated just before it (or behind nothing), so a \<^verbatim>\<open>next\<close> field is
  \<^verbatim>\<open>null\<close> or the following address, and the live chain is the last \<open>size\<close> nodes
  allocated.
\<close>

definition live_from :: "'a queue \<Rightarrow> nat" where
  "live_from q = length (heap q) - nat (size_q q)"

definition wf_queue :: "'a queue \<Rightarrow> bool" where
  "wf_queue q \<longleftrightarrow>
     (let n = length (heap q); lo = live_from q
      in 0 \<le> size_q q \<and> size_q q \<le> int n
         \<and> front q = (if lo < n then Some lo else None)
         \<and> rear q = (if lo < n then Some (n - 1) else None)
         \<and> (\<forall>i < n. node_next (heap q ! i) = None
                    \<or> (node_next (heap q ! i) = Some (Suc i) \<and> Suc i < n))
         \<and> (\<forall>i < n. lo \<le> i \<and> Suc i < n \<longrightarrow> node_next (heap q ! i) = Some (Suc i)))"

text \<open>
  The number of \<^verbatim>\<open>enqueue\<close> calls a queue has served: each allocates exactly one node.
\<close>

definition enqueued_total :: "'a queue \<Rightarrow> nat" where
  "enqueued_total q = length (heap q)"

text \<open>
  A test harness for the queue alone: a program of \<^verbatim>\<open>enqueue\<close>, \<^verbatim>\<open>dequeue\<close> and
  \<^verbatim>\<open>next()\<close> calls on one queue and one generator obtained from it.
\<close>

datatype 'a qop = Enqueue 'a | Dequeue | Next

datatype 'a qout = Enqueued | Dequeued "'a option" | Yielded "'a option"

fun qstep :: "'a qop \<Rightarrow> 'a queue \<times> generator \<Rightarrow> 'a qout \<times> 'a queue \<times> generator" where
  "qstep (Enqueue v) (q, g) = (Enqueued, enqueue v q, g)"
| "qstep Dequeue (q, g) = (case dequeue q of (r, q') \<Rightarrow> (Dequeued r, q', g))"
| "qstep Next (q, g) = (case iterator_next q g of (r, g') \<Rightarrow> (Yielded r, q, g'))"

fun qrun :: "'a qop list \<Rightarrow> 'a queue \<times> generator \<Rightarrow> 'a qout list \<times> 'a queue \<times> generator" where
  "qrun [] c = ([], c)"
| "qrun (x # xs) c =
     (case qstep x c of (out, c') \<Rightarrow> (case qrun xs c' of (outs, c'') \<Rightarrow> (out # outs, c'')))"

definition queue_after :: "'a qop list \<Rightarrow> 'a queue" where
  "queue_after ops = fst (snd (qrun ops (createLinkedListQueue, SuspendedStart)))"

fun is_Next :: "'a qop \<Rightarrow> bool" where
  "is_Next Next = True"
| "is_Next _ = False"

fun is_Yielded :: "'a qout \<Rightarrow> bool" where
  "is_Yielded (Yielded r) = True"
| "is_Yielded _ = False"

text \<open>
  The queue as the specification describes it, an ordered sequence: \<^verbatim>\<open>enqueue\<close> appends,
  \<^verbatim>\<open>dequeue\<close> removes the earliest element, iteration removes nothing.
\<close>

fun fifo_spec :: "'a qop list \<Rightarrow> 'a list \<Rightarrow> 'a list" where
  "fifo_spec [] xs = xs"
| "fifo_spec (Enqueue v # ops) xs = fifo_spec ops (xs @ [v])"
| "fifo_spec (Dequeue # ops) xs = fifo_spec ops (drop 1 xs)"
| "fifo_spec (Next # ops) xs = fifo_spec ops xs"

section \<open>The channel (index.ts)\<close>

text \<open>
  \<^verbatim>\<open>MaybeClosedResult<T>\<close> is \<^verbatim>\<open>{closed: false, value}\<close> or \<^verbatim>\<open>{closed: true, error?}\<close>.
  An \<^verbatim>\<open>Error\<close> object is always truthy, so \<^verbatim>\<open>if (error)\<close> tests whether one is present.
\<close>

datatype ('t, 'e) MaybeClosedResult = Value 't | Closed "'e option"

text \<open>
  A promise is a heap object too: pending, or settled once and for ever. The store
  \<open>settled\<close> holds every promise \<^verbatim>\<open>addPromise\<close> has created, \<open>None\<close> while pending. The
  \<^verbatim>\<open>resolve\<close> function of a promise is identified with the promise it settles, so both
  queues hold promise addresses: \<open>promises\<close> the promise objects, \<open>resolvers\<close> their
  \<^verbatim>\<open>resolve\<close> functions.
\<close>

type_synonym promise = nat

record ('t, 'e) channel =
  promises :: "promise queue"
  resolvers :: "promise queue"
  closed :: bool
  error :: "'e option"
  settled :: "('t, 'e) MaybeClosedResult option list"

definition createUnboundedAsyncChannel :: "('t, 'e) channel" where
  "createUnboundedAsyncChannel =
     \<lparr>promises = createLinkedListQueue, resolvers = createLinkedListQueue,
      closed = False, error = None, settled = []\<rparr>"

text \<open>Calling a promise's \<^verbatim>\<open>resolve\<close>: the first call settles it, a later one does nothing.\<close>

definition resolve ::
  "promise \<Rightarrow> ('t, 'e) MaybeClosedResult \<Rightarrow> ('t, 'e) channel \<Rightarrow> ('t, 'e) channel" where
  "resolve p r s =
     (case settled s ! p of
        None \<Rightarrow> s\<lparr>settled := (settled s)[p := Some r]\<rparr>
      | Some r' \<Rightarrow> s)"

text \<open>
  \<^verbatim>\<open>addPromise\<close>: the executor of \<^verbatim>\<open>new Promise\<close> runs inside the constructor, so the
  resolver is enqueued first and the promise after it.
\<close>

definition addPromise :: "('t, 'e) channel \<Rightarrow> ('t, 'e) channel" where
  "addPromise s =
     (let p = length (settled s);
          s1 = s\<lparr>settled := settled s @ [None]\<rparr>;
          s2 = s1\<lparr>resolvers := enqueue p (resolvers s1)\<rparr>
      in s2\<lparr>promises := enqueue p (promises s2)\<rparr>)"

text \<open>
  \<^verbatim>\<open>write\<close>, here \<open>write_ch\<close> (\<open>write\<close> is a keyword of Isabelle). The \<^verbatim>\<open>!\<close> after
  \<^verbatim>\<open>resolvers.dequeue()\<close> is erased by the compiler: were the result \<^verbatim>\<open>null\<close>, the call
  \<^verbatim>\<open>resolve(...)\<close> would throw a TypeError (\<open>NotAFunction\<close>). The other failure,
  \<open>Diverges\<close>, is a call that never returns.
\<close>

datatype failure = NotAFunction | Diverges

definition write_ch ::
  "'t \<Rightarrow> ('t, 'e) channel \<Rightarrow> failure + (('t, 'e) MaybeClosedResult \<times> ('t, 'e) channel)" where
  "write_ch v s =
     (if closed s then
        (case error s of
           Some e \<Rightarrow> Inr (Closed (Some e), s)
         | None \<Rightarrow> Inr (Closed None, s))
      else
        (let s1 = (if size_q (resolvers s) = 0 then addPromise s else s)
         in case dequeue (resolvers s1) of
              (None, rq) \<Rightarrow> Inl NotAFunction
            | (Some p, rq) \<Rightarrow> Inr (Value v, resolve p (Value v) (s1\<lparr>resolvers := rq\<rparr>))))"

text \<open>
  \<^verbatim>\<open>read\<close> is an async function without an \<^verbatim>\<open>await\<close>: its body runs to the end inside the
  call. What it returns is a promise for the value of its \<^verbatim>\<open>return\<close>: a result that is
  already there, the dequeued promise (which the returned promise follows), or \<^verbatim>\<open>null\<close>
  should \<^verbatim>\<open>dequeue\<close> return it.
\<close>

datatype ('t, 'e) awaited = Resolved "('t, 'e) MaybeClosedResult" | Awaiting promise | Null

definition read :: "('t, 'e) channel \<Rightarrow> ('t, 'e) awaited \<times> ('t, 'e) channel" where
  "read s =
     (if closed s \<and> size_q (promises s) = 0 then
        (case error s of
           Some e \<Rightarrow> (Resolved (Closed (Some e)), s)
         | None \<Rightarrow> (Resolved (Closed None), s))
      else
        (let s1 = (if size_q (promises s) = 0 then addPromise s else s)
         in case dequeue (promises s1) of
              (None, pq) \<Rightarrow> (Null, s1\<lparr>promises := pq\<rparr>)
            | (Some p, pq) \<Rightarrow> (Awaiting p, s1\<lparr>promises := pq\<rparr>)))"

text \<open>What the caller of \<^verbatim>\<open>read\<close> has got, in a given state of the promise store.\<close>

datatype ('t, 'e) outcome = Pending | Got "('t, 'e) MaybeClosedResult" | GotNull

definition outcome :: "('t, 'e) channel \<Rightarrow> ('t, 'e) awaited \<Rightarrow> ('t, 'e) outcome" where
  "outcome s h =
     (case h of
        Resolved r \<Rightarrow> Got r
      | Awaiting p \<Rightarrow> (case settled s ! p of None \<Rightarrow> Pending | Some r \<Rightarrow> Got r)
      | Null \<Rightarrow> GotNull)"

text \<open>
  \<^verbatim>\<open>close\<close>: the loop over \<^verbatim>\<open>resolvers\<close> calls each resolver and leaves the queue as it
  is.
\<close>

definition close :: "'e option \<Rightarrow> ('t, 'e) channel \<Rightarrow> ('t, 'e) channel option" where
  "close err s =
     (if closed s then Some s
      else
        (let s1 = s\<lparr>closed := True, error := err\<rparr>
         in for_of (resolvers s1)
              (\<lambda>p. case err of
                      Some e \<Rightarrow> resolve p (Closed (Some e))
                    | None \<Rightarrow> resolve p (Closed None))
              SuspendedStart s1))"

definition state :: "('t, 'e) channel \<Rightarrow> bool \<times> 'e option" where
  "state s = (closed s, error s)"

text \<open>
  \<^verbatim>\<open>[Symbol.asyncIterator]\<close>, driven by a consumer that takes every element and with no
  other task running in between: the values yielded so far and the way the generator
  stopped. A \<^verbatim>\<open>read\<close> whose promise is pending leaves the generator suspended at its
  \<^verbatim>\<open>await\<close>; a \<^verbatim>\<open>null\<close> result would make \<^verbatim>\<open>res.closed\<close> throw a TypeError.
\<close>

datatype 'e ending = Returned | Thrown 'e | ThrownTypeError | SuspendedAwait

partial_function (option) asyncIterator ::
  "('t, 'e) channel \<Rightarrow> 't list \<Rightarrow> (('t list \<times> 'e ending) \<times> ('t, 'e) channel) option" where
  "asyncIterator s ys =
     (case read s of
        (h, s1) \<Rightarrow>
          (case outcome s1 h of
             Pending \<Rightarrow> Some ((ys, SuspendedAwait), s1)
           | GotNull \<Rightarrow> Some ((ys, ThrownTypeError), s1)
           | Got (Closed (Some e)) \<Rightarrow> Some ((ys, Thrown e), s1)
           | Got (Closed None) \<Rightarrow> Some ((ys, Returned), s1)
           | Got (Value v) \<Rightarrow> asyncIterator s1 (ys @ [v])))"

declare asyncIterator.simps [code]

text \<open>Programs over one channel: a list of calls, run in order until one fails.\<close>

datatype ('t, 'e) op = Write 't | Read | Close "'e option"

datatype ('t, 'e) event =
  Written "('t, 'e) MaybeClosedResult" | ReadCalled "('t, 'e) awaited" | CloseReturned

fun step ::
  "('t, 'e) op \<Rightarrow> ('t, 'e) channel \<Rightarrow> failure + (('t, 'e) event \<times> ('t, 'e) channel)" where
  "step (Write v) s =
     (case write_ch v s of Inl f \<Rightarrow> Inl f | Inr (r, s') \<Rightarrow> Inr (Written r, s'))"
| "step Read s = (case read s of (h, s') \<Rightarrow> Inr (ReadCalled h, s'))"
| "step (Close err) s =
     (case close err s of None \<Rightarrow> Inl Diverges | Some s' \<Rightarrow> Inr (CloseReturned, s'))"

fun run ::
  "('t, 'e) op list \<Rightarrow> ('t, 'e) channel
     \<Rightarrow> failure + (('t, 'e) event list \<times> ('t, 'e) channel)" where
  "run [] s = Inr ([], s)"
| "run (x # xs) s =
     (case step x s of
        Inl f \<Rightarrow> Inl f
      | Inr (ev, s') \<Rightarrow>
          (case run xs s' of Inl f \<Rightarrow> Inl f | Inr (evs, s'') \<Rightarrow> Inr (ev # evs, s'')))"

text \<open>The sizes of the two queues, and the state a program leaves a fresh channel in.\<close>

definition queue_sizes :: "('t, 'e) channel \<Rightarrow> int \<times> int" where
  "queue_sizes s = (size_q (promises s), size_q (resolvers s))"

definition state_after :: "('t, 'e) op list \<Rightarrow> ('t, 'e) channel option" where
  "state_after ops =
     (case run ops createUnboundedAsyncChannel of Inl f \<Rightarrow> None | Inr (evs, s) \<Rightarrow> Some s)"

text \<open>The values buffered in a channel: what the promises in \<open>promises\<close> hold.\<close>

definition buffered :: "('t, 'e) channel \<Rightarrow> ('t, 'e) MaybeClosedResult option list" where
  "buffered s = map (\<lambda>p. settled s ! p) (elems (promises s))"

text \<open>
  The invariant of the channel: both queues are well formed; one of them is empty; a
  promise still in \<open>promises\<close> holds a written value; a resolver still in \<open>resolvers\<close>
  belongs to a promise that exists, and, while the channel is open, to one that is
  pending; no resolver is queued twice; each queue has been given one entry per promise
  created.
\<close>

definition chan_inv :: "('t, 'e) channel \<Rightarrow> bool" where
  "chan_inv s \<longleftrightarrow>
     wf_queue (promises s) \<and> wf_queue (resolvers s)
     \<and> (elems (promises s) = [] \<or> elems (resolvers s) = [])
     \<and> (\<forall>p \<in> set (elems (promises s)).
           p < length (settled s) \<and> (\<exists>v. settled s ! p = Some (Value v)))
     \<and> (\<forall>p \<in> set (elems (resolvers s)). p < length (settled s))
     \<and> (\<not> closed s \<longrightarrow> (\<forall>p \<in> set (elems (resolvers s)). settled s ! p = None))
     \<and> distinct (elems (resolvers s))
     \<and> length (heap (promises s)) = length (settled s)
     \<and> length (heap (resolvers s)) = length (settled s)"

section \<open>Queue: representation lemmas\<close>

lemma wf_create: "wf_queue createLinkedListQueue"
  by (simp add: wf_queue_def createLinkedListQueue_def live_from_def)

lemma chain_values_seq:
  "lo < length h \<Longrightarrow>
   (\<forall>i. lo \<le> i \<and> i < length h \<longrightarrow>
        node_next (h ! i) = (if Suc i < length h then Some (Suc i) else None)) \<Longrightarrow>
   length h - lo \<le> fuel \<Longrightarrow>
   chain_values h (Some lo) fuel = map node_value (drop lo h)"
proof (induction fuel arbitrary: lo)
  case 0
  then show ?case by simp
next
  case (Suc fuel)
  show ?case
  proof (cases "Suc lo < length h")
    case True
    have nx: "node_next (h ! lo) = Some (Suc lo)"
      using Suc.prems True by simp
    have "chain_values h (Some (Suc lo)) fuel = map node_value (drop (Suc lo) h)"
      using Suc.IH [of "Suc lo"] Suc.prems True by simp
    then show ?thesis
      using nx Suc.prems(1) by (simp add: Cons_nth_drop_Suc [symmetric])
  next
    case False
    have nx: "node_next (h ! lo) = None"
      using Suc.prems False by simp
    have "drop lo h = [h ! lo]"
      using False Suc.prems(1) by (simp add: Cons_nth_drop_Suc [symmetric])
    then show ?thesis
      using nx by simp
  qed
qed

lemma wf_next_live:
  assumes "wf_queue q" "live_from q \<le> i" "i < length (heap q)"
  shows "node_next (heap q ! i) = (if Suc i < length (heap q) then Some (Suc i) else None)"
  using assms unfolding wf_queue_def Let_def by (metis)

lemma elems_wf:
  assumes "wf_queue q"
  shows "elems q = map node_value (drop (live_from q) (heap q))"
proof (cases "live_from q < length (heap q)")
  case True
  have fr: "front q = Some (live_from q)"
    using assms True by (simp add: wf_queue_def Let_def)
  show ?thesis
    unfolding elems_def fr
    by (rule chain_values_seq) (use True assms in \<open>auto simp: wf_next_live\<close>)
next
  case False
  have fr: "front q = None"
    using assms False by (simp add: wf_queue_def Let_def)
  show ?thesis
    using False by (simp add: elems_def fr)
qed

lemma size_wf: "wf_queue q \<Longrightarrow> size_q q = int (length (elems q))"
  by (auto simp: elems_wf live_from_def wf_queue_def Let_def)

lemma front_wf: "wf_queue q \<Longrightarrow> front q = (if elems q = [] then None else Some (live_from q))"
  by (auto simp: elems_wf wf_queue_def Let_def)

lemma wf_enqueue:
  assumes "wf_queue q"
  shows "wf_queue (enqueue v q)"
proof (cases "live_from q < length (heap q)")
  case True
  then have r: "rear q = Some (length (heap q) - 1)" and sz: "0 \<le> size_q q" "size_q q \<le> int (length (heap q))"
    using assms by (simp_all add: wf_queue_def Let_def)
  show ?thesis
    using assms True
    unfolding wf_queue_def enqueue_def Let_def r live_from_def
    by (auto simp: nth_append nth_list_update less_Suc_eq nat_add_distrib)
next
  case False
  then have r: "rear q = None"
    using assms by (simp_all add: wf_queue_def Let_def)
  show ?thesis
    using assms False
    unfolding wf_queue_def enqueue_def Let_def r live_from_def
    by (auto simp: nth_append nth_list_update less_Suc_eq nat_add_distrib)
qed

lemma size_enqueue [simp]: "size_q (enqueue v q) = size_q q + 1"
  by (simp add: enqueue_def Let_def split: option.split)

lemma length_heap_enqueue [simp]: "length (heap (enqueue v q)) = Suc (length (heap q))"
  by (simp add: enqueue_def Let_def split: option.split)

lemma live_from_enqueue: "wf_queue q \<Longrightarrow> live_from (enqueue v q) = live_from q"
  by (simp add: live_from_def wf_queue_def Let_def nat_add_distrib)

lemma map_value_relink:
  "map node_value (h[r := (h ! r)\<lparr>node_next := x\<rparr>]) = map node_value h"
  by (cases "r < length h") (simp_all add: list_eq_iff_nth_eq nth_list_update)

lemma map_value_heap_enqueue:
  "map node_value (heap (enqueue v q)) = map node_value (heap q) @ [v]"
  by (simp add: enqueue_def Let_def map_value_relink split: option.split)

lemma elems_enqueue:
  assumes "wf_queue q"
  shows "elems (enqueue v q) = elems q @ [v]"
proof -
  have le: "live_from q \<le> length (heap q)"
    by (simp add: live_from_def)
  have "elems (enqueue v q) = drop (live_from q) (map node_value (heap (enqueue v q)))"
    using assms by (simp add: elems_wf wf_enqueue live_from_enqueue drop_map)
  also have "\<dots> = elems q @ [v]"
    using assms le by (simp add: map_value_heap_enqueue elems_wf drop_map)
  finally show ?thesis .
qed

lemma dequeue_empty:
  assumes "wf_queue q" "elems q = []"
  shows "dequeue q = (None, q)"
  using assms by (simp add: dequeue_def front_wf)

lemma dequeue_Cons:
  assumes "wf_queue q" "elems q = x # xs"
  shows "\<exists>q'. dequeue q = (Some x, q') \<and> wf_queue q' \<and> elems q' = xs
              \<and> heap q' = heap q \<and> size_q q' = size_q q - 1"
proof -
  let ?lo = "live_from q" and ?n = "length (heap q)"
  have "drop ?lo (heap q) \<noteq> []"
    using assms by (auto simp: elems_wf)
  then have lt: "?lo < ?n"
    by simp
  have fr: "front q = Some ?lo"
    using assms by (simp add: front_wf)
  have x: "node_value (heap q ! ?lo) = x" and xs: "map node_value (drop (Suc ?lo) (heap q)) = xs"
    using assms lt by (simp_all add: elems_wf Cons_nth_drop_Suc [symmetric])
  have nx: "node_next (heap q ! ?lo) = (if Suc ?lo < ?n then Some (Suc ?lo) else None)"
    using assms lt by (simp add: wf_next_live)
  obtain q' where q': "dequeue q = (Some x, q')"
    by (simp add: dequeue_def fr Let_def x)
  have hp: "heap q' = heap q" and sz: "size_q q' = size_q q - 1"
    using q' by (auto simp: dequeue_def fr Let_def)
  have pos: "0 < size_q q"
    using lt by (auto simp: live_from_def)
  have le: "size_q q \<le> int ?n"
    using assms(1) by (simp add: wf_queue_def Let_def)
  have lo': "live_from q' = Suc ?lo"
    using pos le unfolding live_from_def hp sz by linarith
  have wf': "wf_queue q'"
    using assms(1) q' lt pos lo'
    unfolding wf_queue_def Let_def hp sz
    by (auto simp: dequeue_def fr Let_def nx split: if_splits)
  have "elems q' = xs"
    using wf' by (simp add: elems_wf lo' hp xs)
  then show ?thesis
    using q' wf' hp sz by simp
qed

lemma for_of_from:
  assumes "wf_queue q"
  shows "live_from q \<le> a \<Longrightarrow> a < length (heap q) \<Longrightarrow>
         for_of q body (SuspendedYield a) s
           = Some (fold body (map node_value (drop (Suc a) (heap q))) s)"
proof (induction "length (heap q) - a" arbitrary: a s)
  case 0
  then show ?case by simp
next
  case (Suc k)
  show ?case
  proof (cases "Suc a < length (heap q)")
    case True
    have nx: "node_next (heap q ! a) = Some (Suc a)"
      using assms Suc.prems True by (simp add: wf_next_live)
    have "for_of q body (SuspendedYield (Suc a)) (body (node_value (heap q ! Suc a)) s)
            = Some (fold body (map node_value (drop (Suc (Suc a)) (heap q)))
                      (body (node_value (heap q ! Suc a)) s))"
      using Suc.hyps(1) [of "Suc a"] Suc.hyps(2) Suc.prems True by simp
    then show ?thesis
      using True by (subst for_of.simps) (simp add: nx Cons_nth_drop_Suc [symmetric])
  next
    case False
    have nx: "node_next (heap q ! a) = None"
      using assms Suc.prems False by (simp add: wf_next_live)
    show ?thesis
      using False by (subst for_of.simps) (simp add: nx)
  qed
qed

lemma for_of_fold:
  assumes "wf_queue q"
  shows "for_of q body SuspendedStart s = Some (fold body (elems q) s)"
proof (cases "live_from q < length (heap q)")
  case True
  have fr: "front q = Some (live_from q)"
    using assms True by (simp add: wf_queue_def Let_def)
  show ?thesis
    using True assms
    by (subst for_of.simps)
       (simp add: fr for_of_from elems_wf Cons_nth_drop_Suc [symmetric])
next
  case False
  have fr: "front q = None"
    using assms False by (simp add: wf_queue_def Let_def)
  show ?thesis
    using False assms by (subst for_of.simps) (simp add: fr elems_wf)
qed

section \<open>Channel: what each operation does to a state that satisfies the invariant\<close>

lemma resolve_fields [simp]:
  "promises (resolve p r s) = promises s"
  "resolvers (resolve p r s) = resolvers s"
  "closed (resolve p r s) = closed s"
  "error (resolve p r s) = error s"
  "length (settled (resolve p r s)) = length (settled s)"
  by (simp_all add: resolve_def split: option.split)

lemma settled_resolve:
  "settled (resolve p r s) ! i =
     (if i = p \<and> p < length (settled s) \<and> settled s ! p = None then Some r else settled s ! i)"
  by (auto simp: resolve_def nth_list_update list_update_beyond split: option.split)

lemma addPromise_fields [simp]:
  "promises (addPromise s) = enqueue (length (settled s)) (promises s)"
  "resolvers (addPromise s) = enqueue (length (settled s)) (resolvers s)"
  "closed (addPromise s) = closed s"
  "error (addPromise s) = error s"
  "settled (addPromise s) = settled s @ [None]"
  by (simp_all add: addPromise_def Let_def)

lemma fold_resolve_fields [simp]:
  "promises (fold (\<lambda>p. resolve p r) ps s) = promises s"
  "resolvers (fold (\<lambda>p. resolve p r) ps s) = resolvers s"
  "closed (fold (\<lambda>p. resolve p r) ps s) = closed s"
  "error (fold (\<lambda>p. resolve p r) ps s) = error s"
  "length (settled (fold (\<lambda>p. resolve p r) ps s)) = length (settled s)"
  by (induction ps arbitrary: s; simp)+

lemma settled_fold_resolve:
  "\<forall>p \<in> set ps. p < length (settled s) \<Longrightarrow>
   settled (fold (\<lambda>p. resolve p r) ps s) ! i =
     (if i \<in> set ps \<and> settled s ! i = None then Some r else settled s ! i)"
proof (induction ps arbitrary: s)
  case Nil
  then show ?case by simp
next
  case (Cons p ps)
  have "\<forall>p \<in> set ps. p < length (settled (resolve p r s))"
    using Cons.prems by simp
  then show ?case
    using Cons.IH [of "resolve p r s"] Cons.prems
    by (auto simp: settled_resolve)
qed

lemma close_err_cases:
  "(\<lambda>p. case err of Some e \<Rightarrow> resolve p (Closed (Some e)) | None \<Rightarrow> resolve p (Closed None))
     = (\<lambda>p. resolve p (Closed err))"
  by (cases err) simp_all

lemma close_open:
  assumes "chan_inv s" "\<not> closed s"
  shows "close err s
           = Some (fold (\<lambda>p. resolve p (Closed err)) (elems (resolvers s))
                     (s\<lparr>closed := True, error := err\<rparr>))"
  using assms by (simp add: close_def close_err_cases for_of_fold chan_inv_def)

lemma close_closed: "closed s \<Longrightarrow> close err s = Some s"
  by (simp add: close_def)

lemma size_zero_iff: "wf_queue q \<Longrightarrow> size_q q = 0 \<longleftrightarrow> elems q = []"
  by (simp add: size_wf)

lemma chan_inv_wf: "chan_inv s \<Longrightarrow> wf_queue (promises s) \<and> wf_queue (resolvers s)"
  by (simp add: chan_inv_def)

text \<open>write on an open channel with no waiting reader: the value is buffered.\<close>

lemma write_buffer:
  assumes "chan_inv s" "\<not> closed s" "elems (resolvers s) = []"
  shows "\<exists>s'. write_ch v s = Inr (Value v, s')
            \<and> elems (promises s') = elems (promises s) @ [length (settled s)]
            \<and> elems (resolvers s') = []
            \<and> settled s' = settled s @ [Some (Value v)]
            \<and> closed s' = closed s \<and> error s' = error s
            \<and> wf_queue (promises s') \<and> wf_queue (resolvers s')
            \<and> length (heap (promises s')) = Suc (length (heap (promises s)))
            \<and> length (heap (resolvers s')) = Suc (length (heap (resolvers s)))"
proof -
  let ?n = "length (settled s)"
  let ?s1 = "addPromise s"
  have wf: "wf_queue (promises s)" "wf_queue (resolvers s)"
    using assms(1) by (simp_all add: chan_inv_def)
  have sz: "size_q (resolvers s) = 0"
    using wf assms(3) by (simp add: size_zero_iff)
  have wf1: "wf_queue (resolvers ?s1)" and el1: "elems (resolvers ?s1) = [?n]"
    using wf assms(3) by (simp_all add: wf_enqueue elems_enqueue)
  obtain rq where rq: "dequeue (resolvers ?s1) = (Some ?n, rq)" "wf_queue rq" "elems rq = []"
    "heap rq = heap (resolvers ?s1)"
    using dequeue_Cons [OF wf1 el1] by blast
  let ?s' = "resolve ?n (Value v) (?s1\<lparr>resolvers := rq\<rparr>)"
  have w: "write_ch v s = Inr (Value v, ?s')"
    using assms(2) sz rq(1) by (simp add: write_ch_def)
  have st: "settled ?s' = settled s @ [Some (Value v)]"
    by (simp add: resolve_def)
  show ?thesis
    using w st rq wf by (simp add: wf_enqueue elems_enqueue)
qed

text \<open>write on an open channel with a waiting reader: the earliest one is served.\<close>

lemma write_serve:
  assumes "chan_inv s" "\<not> closed s" "elems (resolvers s) = p # ps"
  shows "\<exists>s'. write_ch v s = Inr (Value v, s')
            \<and> promises s' = promises s
            \<and> elems (resolvers s') = ps
            \<and> settled s' = (settled s)[p := Some (Value v)]
            \<and> closed s' = closed s \<and> error s' = error s
            \<and> wf_queue (resolvers s')
            \<and> heap (resolvers s') = heap (resolvers s)"
proof -
  have wf: "wf_queue (promises s)" "wf_queue (resolvers s)"
    using assms(1) by (simp_all add: chan_inv_def)
  have sz: "size_q (resolvers s) \<noteq> 0"
    using wf assms(3) by (simp add: size_zero_iff)
  have pend: "settled s ! p = None"
    using assms by (simp add: chan_inv_def)
  obtain rq where rq: "dequeue (resolvers s) = (Some p, rq)" "wf_queue rq" "elems rq = ps"
    "heap rq = heap (resolvers s)"
    using dequeue_Cons [OF wf(2) assms(3)] by blast
  let ?s' = "resolve p (Value v) (s\<lparr>resolvers := rq\<rparr>)"
  have w: "write_ch v s = Inr (Value v, ?s')"
    using assms(2) sz rq(1) by (simp add: write_ch_def)
  have st: "settled ?s' = (settled s)[p := Some (Value v)]"
    using pend by (simp add: resolve_def)
  show ?thesis
    using w st rq by simp
qed

lemma write_closed: "closed s \<Longrightarrow> write_ch v s = Inr (Closed (error s), s)"
  by (simp add: write_ch_def split: option.split)

lemma read_closed_drained:
  "closed s \<Longrightarrow> size_q (promises s) = 0 \<Longrightarrow> read s = (Resolved (Closed (error s)), s)"
  by (simp add: read_def split: option.split)

text \<open>read with nothing buffered, on an open channel: the reader waits on a new promise.\<close>

lemma read_wait:
  assumes "chan_inv s" "\<not> closed s" "elems (promises s) = []"
  shows "\<exists>s'. read s = (Awaiting (length (settled s)), s')
            \<and> elems (promises s') = []
            \<and> elems (resolvers s') = elems (resolvers s) @ [length (settled s)]
            \<and> settled s' = settled s @ [None]
            \<and> closed s' = closed s \<and> error s' = error s
            \<and> wf_queue (promises s') \<and> wf_queue (resolvers s')
            \<and> length (heap (promises s')) = Suc (length (heap (promises s)))
            \<and> length (heap (resolvers s')) = Suc (length (heap (resolvers s)))"
proof -
  let ?n = "length (settled s)"
  let ?s1 = "addPromise s"
  have wf: "wf_queue (promises s)" "wf_queue (resolvers s)"
    using assms(1) by (simp_all add: chan_inv_def)
  have sz: "size_q (promises s) = 0"
    using wf assms(3) by (simp add: size_zero_iff)
  have wf1: "wf_queue (promises ?s1)" and el1: "elems (promises ?s1) = [?n]"
    using wf assms(3) by (simp_all add: wf_enqueue elems_enqueue)
  obtain pq where pq: "dequeue (promises ?s1) = (Some ?n, pq)" "wf_queue pq" "elems pq = []"
    "heap pq = heap (promises ?s1)"
    using dequeue_Cons [OF wf1 el1] by blast
  have r: "read s = (Awaiting ?n, ?s1\<lparr>promises := pq\<rparr>)"
    using assms(2) sz pq(1) by (simp add: read_def)
  show ?thesis
    using r pq wf by (simp add: wf_enqueue elems_enqueue)
qed

text \<open>read with something buffered, open or closed: the earliest promise is taken.\<close>

lemma read_take:
  assumes "chan_inv s" "elems (promises s) = p # ps"
  shows "\<exists>s'. read s = (Awaiting p, s')
            \<and> elems (promises s') = ps
            \<and> resolvers s' = resolvers s
            \<and> settled s' = settled s
            \<and> closed s' = closed s \<and> error s' = error s
            \<and> wf_queue (promises s')
            \<and> heap (promises s') = heap (promises s)"
proof -
  have wf: "wf_queue (promises s)" "wf_queue (resolvers s)"
    using assms(1) by (simp_all add: chan_inv_def)
  have sz: "size_q (promises s) \<noteq> 0"
    using wf assms(2) by (simp add: size_zero_iff)
  obtain pq where pq: "dequeue (promises s) = (Some p, pq)" "wf_queue pq" "elems pq = ps"
    "heap pq = heap (promises s)"
    using dequeue_Cons [OF wf(1) assms(2)] by blast
  have r: "read s = (Awaiting p, s\<lparr>promises := pq\<rparr>)"
    using sz pq(1) by (simp add: read_def)
  show ?thesis
    using r pq by simp
qed

section \<open>Channel: the invariant holds in every reachable state\<close>

lemma chan_inv_create: "chan_inv createUnboundedAsyncChannel"
  by (simp add: chan_inv_def createUnboundedAsyncChannel_def wf_create)
     (simp add: elems_def createLinkedListQueue_def)

lemma chan_inv_write:
  assumes "chan_inv s"
  shows "\<exists>r s'. write_ch v s = Inr (r, s') \<and> chan_inv s'"
proof (cases "closed s")
  case True
  then show ?thesis using assms by (simp add: write_closed)
next
  case False
  show ?thesis
  proof (cases "elems (resolvers s)")
    case Nil
    obtain s' where s': "write_ch v s = Inr (Value v, s')"
      "elems (promises s') = elems (promises s) @ [length (settled s)]"
      "elems (resolvers s') = []"
      "settled s' = settled s @ [Some (Value v)]"
      "closed s' = closed s" "error s' = error s"
      "wf_queue (promises s')" "wf_queue (resolvers s')"
      "length (heap (promises s')) = Suc (length (heap (promises s)))"
      "length (heap (resolvers s')) = Suc (length (heap (resolvers s)))"
      using write_buffer [OF assms False Nil, of v] by blast
    have "chan_inv s'"
      using assms s'(2-10) unfolding chan_inv_def
      by (auto simp: nth_append)
    then show ?thesis using s'(1) by blast
  next
    case (Cons p ps)
    obtain s' where s': "write_ch v s = Inr (Value v, s')"
      "promises s' = promises s"
      "elems (resolvers s') = ps"
      "settled s' = (settled s)[p := Some (Value v)]"
      "closed s' = closed s" "error s' = error s"
      "wf_queue (resolvers s')"
      "heap (resolvers s') = heap (resolvers s)"
      using write_serve [OF assms False Cons, of v] by blast
    have "chan_inv s'"
      using assms False s'(2-8) Cons unfolding chan_inv_def
      by (auto simp: nth_list_update)
    then show ?thesis using s'(1) by blast
  qed
qed

lemma chan_inv_read:
  assumes "chan_inv s"
  shows "\<exists>h s'. read s = (h, s') \<and> h \<noteq> Null \<and> chan_inv s'"
proof (cases "elems (promises s)")
  case Nil
  show ?thesis
  proof (cases "closed s")
    case True
    have "size_q (promises s) = 0"
      using assms Nil by (simp add: chan_inv_def size_zero_iff)
    then show ?thesis
      using assms True by (simp add: read_closed_drained)
  next
    case False
    obtain s' where s': "read s = (Awaiting (length (settled s)), s')"
      "elems (promises s') = []"
      "elems (resolvers s') = elems (resolvers s) @ [length (settled s)]"
      "settled s' = settled s @ [None]"
      "closed s' = closed s" "error s' = error s"
      "wf_queue (promises s')" "wf_queue (resolvers s')"
      "length (heap (promises s')) = Suc (length (heap (promises s)))"
      "length (heap (resolvers s')) = Suc (length (heap (resolvers s)))"
      using read_wait [OF assms False Nil] by blast
    have "chan_inv s'"
      using assms False s'(2-10) unfolding chan_inv_def
      by (auto simp: nth_append)
    then show ?thesis using s'(1) by simp
  qed
next
  case (Cons p ps)
  obtain s' where s': "read s = (Awaiting p, s')"
    "elems (promises s') = ps"
    "resolvers s' = resolvers s"
    "settled s' = settled s"
    "closed s' = closed s" "error s' = error s"
    "wf_queue (promises s')"
    "heap (promises s') = heap (promises s)"
    using read_take [OF assms Cons] by blast
  have "chan_inv s'"
    using assms s'(2-8) Cons unfolding chan_inv_def
    by auto
  then show ?thesis using s'(1) by simp
qed

lemma chan_inv_close:
  assumes "chan_inv s"
  shows "\<exists>s'. close err s = Some s' \<and> chan_inv s'"
proof (cases "closed s")
  case True
  then show ?thesis using assms by (simp add: close_closed)
next
  case False
  let ?s' = "fold (\<lambda>p. resolve p (Closed err)) (elems (resolvers s))
               (s\<lparr>closed := True, error := err\<rparr>)"
  have c: "close err s = Some ?s'"
    using assms False by (rule close_open)
  have rng: "\<forall>p \<in> set (elems (resolvers s)). p < length (settled (s\<lparr>closed := True, error := err\<rparr>))"
    using assms by (simp add: chan_inv_def)
  have "chan_inv ?s'"
    using assms unfolding chan_inv_def
    by (auto simp: settled_fold_resolve [OF rng])
  then show ?thesis using c by simp
qed

lemma chan_inv_step:
  assumes "chan_inv s"
  shows "\<exists>ev s'. step x s = Inr (ev, s') \<and> chan_inv s'"
proof (cases x)
  case (Write v)
  then show ?thesis using chan_inv_write [OF assms, of v] by auto
next
  case Read
  then show ?thesis using chan_inv_read [OF assms] by auto
next
  case (Close err)
  then show ?thesis using chan_inv_close [OF assms, of err] by auto
qed

lemma chan_inv_run:
  "chan_inv s \<Longrightarrow> \<exists>evs s'. run ops s = Inr (evs, s') \<and> chan_inv s'"
proof (induction ops arbitrary: s)
  case Nil
  then show ?case by simp
next
  case (Cons x ops)
  obtain ev s1 where s1: "step x s = Inr (ev, s1)" "chan_inv s1"
    using chan_inv_step [OF Cons.prems] by blast
  obtain evs s2 where s2: "run ops s1 = Inr (evs, s2)" "chan_inv s2"
    using Cons.IH [OF s1(2)] by blast
  show ?case using s1 s2 by simp
qed

lemma run_inv:
  assumes "chan_inv s" "run ops s = Inr (evs, s')"
  shows "chan_inv s'"
  using chan_inv_run [OF assms(1), of ops] assms(2) by auto

lemma run_append:
  "run (xs @ ys) s =
     (case run xs s of
        Inl f \<Rightarrow> Inl f
      | Inr (evs, s') \<Rightarrow>
          (case run ys s' of Inl f \<Rightarrow> Inl f | Inr (evs', s'') \<Rightarrow> Inr (evs @ evs', s'')))"
  by (induction xs arbitrary: s) (auto split: sum.splits prod.splits)

section \<open>Channel: runs of writes and of reads\<close>

lemma state_after_inv: "state_after ops = Some s \<Longrightarrow> chan_inv s"
  using chan_inv_run [OF chan_inv_create, of ops]
  by (auto simp: state_after_def split: sum.splits)

lemma state_after_total: "state_after ops \<noteq> None"
  using chan_inv_run [OF chan_inv_create, of ops]
  by (auto simp: state_after_def split: sum.splits)

lemma buffered_values:
  "chan_inv s \<Longrightarrow> \<exists>vs. buffered s = map (\<lambda>v. Some (Value v)) vs"
proof -
  assume "chan_inv s"
  then have "\<forall>p \<in> set (elems (promises s)). \<exists>v. settled s ! p = Some (Value v)"
    by (simp add: chan_inv_def)
  then have "\<exists>vs. map (\<lambda>p. settled s ! p) ps = map (\<lambda>v. Some (Value v)) vs"
    if "set ps \<subseteq> set (elems (promises s))" for ps
    using that
  proof (induction ps)
    case Nil
    then show ?case by simp
  next
    case (Cons p ps)
    then obtain vs v where "map (\<lambda>p. settled s ! p) ps = map (\<lambda>v. Some (Value v)) vs"
      "settled s ! p = Some (Value v)"
      by auto
    then have "map (\<lambda>p. settled s ! p) (p # ps) = map (\<lambda>v. Some (Value v)) (v # vs)"
      by simp
    then show ?case by blast
  qed
  then show ?thesis
    unfolding buffered_def by blast
qed

text \<open>Writes with no reader waiting are buffered one behind the other.\<close>

lemma run_writes_buffer:
  "chan_inv s \<Longrightarrow> \<not> closed s \<Longrightarrow> elems (resolvers s) = [] \<Longrightarrow>
   \<exists>s'. run (map Write vs) s = Inr (map (\<lambda>v. Written (Value v)) vs, s')
        \<and> chan_inv s' \<and> \<not> closed s' \<and> error s' = error s
        \<and> elems (resolvers s') = []
        \<and> buffered s' = buffered s @ map (\<lambda>v. Some (Value v)) vs"
proof (induction vs arbitrary: s)
  case Nil
  then show ?case by simp
next
  case (Cons v vs)
  obtain s1 where s1: "write_ch v s = Inr (Value v, s1)"
    "elems (promises s1) = elems (promises s) @ [length (settled s)]"
    "elems (resolvers s1) = []"
    "settled s1 = settled s @ [Some (Value v)]"
    "closed s1 = closed s" "error s1 = error s"
    using write_buffer [OF Cons.prems, of v] by blast
  have inv1: "chan_inv s1"
    using chan_inv_write [OF Cons.prems(1), of v] s1(1) by auto
  have "\<forall>p \<in> set (elems (promises s)). p < length (settled s)"
    using Cons.prems(1) by (simp add: chan_inv_def)
  then have b1: "buffered s1 = buffered s @ [Some (Value v)]"
    by (simp add: buffered_def s1 nth_append)
  obtain s' where s': "run (map Write vs) s1 = Inr (map (\<lambda>v. Written (Value v)) vs, s')"
    "chan_inv s'" "\<not> closed s'" "error s' = error s1" "elems (resolvers s') = []"
    "buffered s' = buffered s1 @ map (\<lambda>v. Some (Value v)) vs"
    using Cons.IH [OF inv1] Cons.prems(2) s1 by auto
  show ?case
    using s1 s' b1 by simp
qed

text \<open>Reads take the buffered values in order and change nothing else.\<close>

lemma run_reads_buffered:
  "chan_inv s \<Longrightarrow> buffered s = map (\<lambda>v. Some (Value v)) vs \<Longrightarrow>
   \<exists>hs s'. run (replicate (length vs) Read) s = Inr (map ReadCalled hs, s')
        \<and> map (outcome s') hs = map (\<lambda>v. Got (Value v)) vs
        \<and> chan_inv s' \<and> elems (promises s') = []
        \<and> resolvers s' = resolvers s \<and> settled s' = settled s
        \<and> closed s' = closed s \<and> error s' = error s"
proof (induction vs arbitrary: s)
  case Nil
  then have "run (replicate (length []) Read) s = Inr (map ReadCalled [], s)"
    "elems (promises s) = []"
    by (simp_all add: buffered_def)
  then show ?case using Nil.prems(1) by fastforce
next
  case (Cons v vs)
  obtain p ps where ps: "elems (promises s) = p # ps" "settled s ! p = Some (Value v)"
    "map (\<lambda>p. settled s ! p) ps = map (\<lambda>v. Some (Value v)) vs"
    using Cons.prems(2) by (auto simp: buffered_def)
  obtain s1 where s1: "read s = (Awaiting p, s1)"
    "elems (promises s1) = ps" "resolvers s1 = resolvers s" "settled s1 = settled s"
    "closed s1 = closed s" "error s1 = error s"
    using read_take [OF Cons.prems(1) ps(1)] by blast
  have inv1: "chan_inv s1"
    using chan_inv_read [OF Cons.prems(1)] s1(1) by auto
  have b1: "buffered s1 = map (\<lambda>v. Some (Value v)) vs"
    by (simp add: buffered_def s1 ps)
  obtain hs s' where s': "run (replicate (length vs) Read) s1 = Inr (map ReadCalled hs, s')"
    "map (outcome s') hs = map (\<lambda>v. Got (Value v)) vs"
    "chan_inv s'" "elems (promises s') = []"
    "resolvers s' = resolvers s1" "settled s' = settled s1"
    "closed s' = closed s1" "error s' = error s1"
    using Cons.IH [OF inv1 b1] by blast
  have o: "outcome s' (Awaiting p) = Got (Value v)"
    by (simp add: outcome_def s' s1 ps)
  show ?case
    by (rule exI [of _ "Awaiting p # hs"], rule exI [of _ s']) (simp add: s1 s' o)
qed

text \<open>Reads of a closed and drained channel report the closure and change nothing.\<close>

lemma run_reads_closed:
  "closed s \<Longrightarrow> size_q (promises s) = 0 \<Longrightarrow>
   run (replicate m Read) s = Inr (replicate m (ReadCalled (Resolved (Closed (error s)))), s)"
  by (induction m) (simp_all add: read_closed_drained)

lemma empty_buffered: "elems (promises s) = [] \<Longrightarrow> buffered s = []"
  by (simp add: buffered_def)

lemma close_open_props:
  assumes "chan_inv s" "\<not> closed s"
  shows "\<exists>s1. close err s = Some s1 \<and> chan_inv s1 \<and> closed s1 \<and> error s1 = err
            \<and> promises s1 = promises s \<and> resolvers s1 = resolvers s
            \<and> buffered s1 = buffered s
            \<and> (\<forall>p \<in> set (elems (resolvers s)). settled s1 ! p = Some (Closed err))"
proof -
  let ?s1 = "fold (\<lambda>p. resolve p (Closed err)) (elems (resolvers s))
               (s\<lparr>closed := True, error := err\<rparr>)"
  have c: "close err s = Some ?s1"
    using assms by (rule close_open)
  have inv1: "chan_inv ?s1"
    using chan_inv_close [OF assms(1), of err] c by simp
  have rng: "\<forall>p \<in> set (elems (resolvers s)). p < length (settled (s\<lparr>closed := True, error := err\<rparr>))"
    using assms by (simp add: chan_inv_def)
  have "\<forall>p \<in> set (elems (promises s)). settled s ! p \<noteq> None"
    using assms(1) by (auto simp: chan_inv_def)
  then have b: "buffered ?s1 = buffered s"
    by (simp add: buffered_def settled_fold_resolve [OF rng])
  have pend: "\<forall>p \<in> set (elems (resolvers s)). settled s ! p = None"
    using assms by (simp add: chan_inv_def)
  have "\<forall>p \<in> set (elems (resolvers s)). settled ?s1 ! p = Some (Closed err)"
    using pend by (simp add: settled_fold_resolve [OF rng])
  then show ?thesis
    using c inv1 b by simp
qed

section \<open>Channel: after the closure\<close>

lemma step_closed:
  assumes "closed s" "step x s = Inr (ev, s')"
  shows "closed s' \<and> error s' = error s"
proof (cases x)
  case (Write v)
  then show ?thesis using assms by (auto simp: write_closed)
next
  case Read
  then show ?thesis
    using assms by (auto simp: read_def Let_def split: if_splits option.splits prod.splits)
next
  case (Close err)
  then show ?thesis using assms by (auto simp: close_closed)
qed

lemma run_closed:
  "closed s \<Longrightarrow> run xs s = Inr (evs, s') \<Longrightarrow> closed s' \<and> error s' = error s"
proof (induction xs arbitrary: s evs)
  case Nil
  then show ?case by simp
next
  case (Cons x xs)
  from Cons.prems(2) obtain ev s1 evs1 where
    s1: "step x s = Inr (ev, s1)" and r: "run xs s1 = Inr (evs1, s')"
    by (auto split: sum.splits prod.splits)
  have "closed s1 \<and> error s1 = error s"
    using step_closed [OF Cons.prems(1) s1] .
  then show ?case
    using Cons.IH [of s1 evs1] r by simp
qed

text \<open>Iterating a closed channel: the buffered values, then the end the closure asks for.\<close>

lemma asyncIterator_closed:
  "chan_inv s \<Longrightarrow> closed s \<Longrightarrow> buffered s = map (\<lambda>v. Some (Value v)) vs \<Longrightarrow>
   \<exists>s'. asyncIterator s ys
          = Some ((ys @ vs, case error s of None \<Rightarrow> Returned | Some e \<Rightarrow> Thrown e), s')"
proof (induction vs arbitrary: s ys)
  case Nil
  have "elems (promises s) = []"
    using Nil.prems(3) by (simp add: buffered_def)
  then have "size_q (promises s) = 0"
    using Nil.prems(1) by (simp add: chan_inv_def size_zero_iff)
  then have "read s = (Resolved (Closed (error s)), s)"
    using Nil.prems(2) by (simp add: read_closed_drained)
  then show ?case
    by (subst asyncIterator.simps) (simp add: outcome_def split: option.split)
next
  case (Cons v vs)
  obtain p ps where ps: "elems (promises s) = p # ps" "settled s ! p = Some (Value v)"
    "map (\<lambda>p. settled s ! p) ps = map (\<lambda>v. Some (Value v)) vs"
    using Cons.prems(3) by (auto simp: buffered_def)
  obtain s1 where s1: "read s = (Awaiting p, s1)"
    "elems (promises s1) = ps" "settled s1 = settled s"
    "closed s1 = closed s" "error s1 = error s"
    using read_take [OF Cons.prems(1) ps(1)] by blast
  have inv1: "chan_inv s1"
    using chan_inv_read [OF Cons.prems(1)] s1(1) by auto
  have b1: "buffered s1 = map (\<lambda>v. Some (Value v)) vs"
    by (simp add: buffered_def s1 ps)
  have c1: "closed s1"
    using s1(4) Cons.prems(2) by simp
  obtain s' where s': "asyncIterator s1 (ys @ [v])
      = Some (((ys @ [v]) @ vs, case error s1 of None \<Rightarrow> Returned | Some e \<Rightarrow> Thrown e), s')"
    using Cons.IH [OF inv1 c1 b1, of "ys @ [v]"] by blast
  have o: "outcome s1 (Awaiting p) = Got (Value v)"
    by (simp add: outcome_def s1 ps)
  show ?case
    by (subst asyncIterator.simps) (simp add: s1(1,5) o s')
qed

section \<open>Queue: programs of calls, and the sequence of the specification\<close>

lemma elems_create: "elems createLinkedListQueue = []"
  by (simp add: elems_def createLinkedListQueue_def)

lemma qrun_refines:
  "wf_queue q \<Longrightarrow>
   wf_queue (fst (snd (qrun ops (q, g))))
   \<and> elems (fst (snd (qrun ops (q, g)))) = fifo_spec ops (elems q)"
proof (induction ops arbitrary: q g)
  case Nil
  then show ?case by simp
next
  case (Cons x ops)
  show ?case
  proof (cases x)
    case (Enqueue v)
    have "wf_queue (enqueue v q)" "elems (enqueue v q) = elems q @ [v]"
      using Cons.prems by (simp_all add: wf_enqueue elems_enqueue)
    then show ?thesis
      using Cons.IH [of "enqueue v q" g] Enqueue by (auto split: prod.split)
  next
    case Dequeue
    show ?thesis
    proof (cases "elems q")
      case Nil
      then have "dequeue q = (None, q)"
        using Cons.prems by (simp add: dequeue_empty)
      then show ?thesis
        using Cons.IH [OF Cons.prems, of g] Dequeue Nil by (auto split: prod.split)
    next
      case (Cons y ys)
      obtain q' where q': "dequeue q = (Some y, q')" "wf_queue q'" "elems q' = ys"
        using dequeue_Cons [OF Cons.prems Cons] by blast
      show ?thesis
        using Cons.IH [OF q'(2), of g] Dequeue Cons q' by (auto split: prod.split)
    qed
  next
    case Next
    then show ?thesis
      using Cons.IH [OF Cons.prems, of "snd (iterator_next q g)"] by (auto split: prod.split)
  qed
qed

lemma queue_after_refines:
  "wf_queue (queue_after ops) \<and> elems (queue_after ops) = fifo_spec ops []"
  using qrun_refines [OF wf_create, of ops SuspendedStart]
  by (simp add: queue_after_def elems_create)

lemma qrun_without_Next:
  "fst (snd (qrun ops (q, g))) = fst (snd (qrun (filter (\<lambda>x. \<not> is_Next x) ops) (q, g')))
   \<and> filter (\<lambda>out. \<not> is_Yielded out) (fst (qrun ops (q, g)))
       = fst (qrun (filter (\<lambda>x. \<not> is_Next x) ops) (q, g'))"
proof (induction ops arbitrary: q g g')
  case Nil
  then show ?case by simp
next
  case (Cons x ops)
  show ?case
  proof (cases x)
    case (Enqueue v)
    then show ?thesis
      using Cons.IH [of "enqueue v q" g g'] by (auto split: prod.split)
  next
    case Dequeue
    then show ?thesis
      using Cons.IH [of "snd (dequeue q)" g g'] by (auto split: prod.split)
  next
    case Next
    then show ?thesis
      using Cons.IH [of q "snd (iterator_next q g)" g'] by (auto split: prod.split)
  qed
qed

section \<open>The properties of the specification\<close>

text \<open>
  Claim C1. On an open channel that holds nothing (no buffered value, no waiting reader),
  with no call to \<^verbatim>\<open>close\<close>: after the writes of the values \<open>vs\<close>, \<open>n\<close> of them, the next
  \<open>n\<close> calls of \<^verbatim>\<open>read()\<close> return \<^verbatim>\<open>{closed: false, value: v}\<close> for each \<open>v\<close> of \<open>vs\<close>, in
  the order of the writes. The channel is any state a fresh channel can reach, the fresh
  channel included.
\<close>

theorem C1_writes_then_reads:
  assumes "state_after ops = Some s"
    and "\<not> closed s"
    and "size_q (promises s) = 0"
    and "size_q (resolvers s) = 0"
  shows "\<exists>hs s'. run (map Write vs @ replicate (length vs) Read) s
                   = Inr (map (\<lambda>v. Written (Value v)) vs @ map ReadCalled hs, s')
               \<and> map (outcome s') hs = map (\<lambda>v. Got (Value v)) vs"
proof -
  have inv: "chan_inv s"
    using assms(1) by (rule state_after_inv)
  have e: "elems (promises s) = []" "elems (resolvers s) = []"
    using inv assms(3,4) by (simp_all add: chan_inv_def size_zero_iff)
  obtain s1 where s1: "run (map Write vs) s = Inr (map (\<lambda>v. Written (Value v)) vs, s1)"
    "chan_inv s1" "buffered s1 = buffered s @ map (\<lambda>v. Some (Value v)) vs"
    using run_writes_buffer [OF inv assms(2) e(2), of vs] by blast
  have b1: "buffered s1 = map (\<lambda>v. Some (Value v)) vs"
    using s1(3) e(1) by (simp add: empty_buffered)
  obtain hs s' where s': "run (replicate (length vs) Read) s1 = Inr (map ReadCalled hs, s')"
    "map (outcome s') hs = map (\<lambda>v. Got (Value v)) vs"
    using run_reads_buffered [OF s1(2) b1] by blast
  show ?thesis
    by (rule exI [of _ hs], rule exI [of _ s']) (simp add: run_append s1 s')
qed

theorem C1_writes_then_reads_witness:
  "\<exists>s hs s'. state_after [Read, Write (7::int)] = Some (s :: (int, unit) channel)
      \<and> \<not> closed s \<and> size_q (promises s) = 0 \<and> size_q (resolvers s) = 0
      \<and> run (map Write [1, 2, 3] @ replicate (length [1, 2, 3 :: int]) Read) s
           = Inr (map (\<lambda>v. Written (Value v)) [1, 2, 3] @ map ReadCalled hs, s')
      \<and> map (outcome s') hs = map (\<lambda>v. Got (Value v)) [1, 2, 3]"
proof -
  let ?t = "state_after [Read, Write (7::int)] :: (int, unit) channel option"
  have "?t \<noteq> None" by code_simp
  then obtain s where s: "?t = Some s" by blast
  have "map_option closed ?t = Some False" "map_option queue_sizes ?t = Some (0, 0)"
    by code_simp+
  then have h: "\<not> closed s" "size_q (promises s) = 0" "size_q (resolvers s) = 0"
    using s by (simp_all add: queue_sizes_def)
  show ?thesis
    using C1_writes_then_reads [OF s h, of "[1, 2, 3]"] s h by blast
qed

text \<open>
  Claim C2. A channel holds the buffered (written, unread) values \<open>vs\<close>, \<open>k\<close> of them, and
  \<^verbatim>\<open>close(e)\<close> closes it. The next \<open>k\<close> calls of \<^verbatim>\<open>read()\<close> return those values in the
  order they were written, and each of the \<open>m\<close> calls after them returns
  \<^verbatim>\<open>{closed: true, error: e}\<close>, for every \<open>m\<close>.
\<close>

theorem C2_close_drains_then_reports:
  assumes "state_after ops = Some s"
    and "\<not> closed s"
    and "buffered s = map (\<lambda>v. Some (Value v)) vs"
  shows "\<exists>s1 hs s2. close e s = Some s1
               \<and> run (replicate (length vs + m) Read) s1 = Inr (map ReadCalled hs, s2)
               \<and> map (outcome s2) hs
                    = map (\<lambda>v. Got (Value v)) vs @ replicate m (Got (Closed e))"
proof -
  have inv: "chan_inv s"
    using assms(1) by (rule state_after_inv)
  obtain s1 where s1: "close e s = Some s1" "chan_inv s1" "closed s1" "error s1 = e"
    "buffered s1 = buffered s"
    using close_open_props [OF inv assms(2), of e] by blast
  have b1: "buffered s1 = map (\<lambda>v. Some (Value v)) vs"
    using s1(5) assms(3) by simp
  obtain hs s2 where s2: "run (replicate (length vs) Read) s1 = Inr (map ReadCalled hs, s2)"
    "map (outcome s2) hs = map (\<lambda>v. Got (Value v)) vs"
    "chan_inv s2" "elems (promises s2) = []" "closed s2 = closed s1" "error s2 = error s1"
    using run_reads_buffered [OF s1(2) b1] by blast
  have z: "size_q (promises s2) = 0"
    using s2(3,4) by (simp add: chan_inv_def size_zero_iff)
  have c2: "closed s2" "error s2 = e"
    using s2 s1 by simp_all
  have r: "run (replicate m Read) s2
             = Inr (map ReadCalled (replicate m (Resolved (Closed e))), s2)"
    using run_reads_closed [OF c2(1) z, of m] c2(2) by simp
  have o: "map (outcome s2) (replicate m (Resolved (Closed e))) = replicate m (Got (Closed e))"
    by (simp add: outcome_def)
  show ?thesis
    by (rule exI [of _ s1], rule exI [of _ "hs @ replicate m (Resolved (Closed e))"],
        rule exI [of _ s2])
       (simp add: s1 replicate_add run_append s2 r o del: map_replicate)
qed

theorem C2_close_drains_then_reports_witness:
  "\<exists>s s1 hs s2. state_after [Write (4::int), Write 5] = Some s
      \<and> \<not> closed s \<and> buffered s = map (\<lambda>v. Some (Value v)) [4, 5]
      \<and> close (Some ''boom'') s = Some s1
      \<and> run (replicate (length [4, 5 :: int] + 2) Read) s1 = Inr (map ReadCalled hs, s2)
      \<and> map (outcome s2) hs
           = map (\<lambda>v. Got (Value v)) [4, 5] @ replicate 2 (Got (Closed (Some ''boom'')))"
proof -
  let ?t = "state_after [Write (4::int), Write 5] :: (int, string) channel option"
  have "?t \<noteq> None" by code_simp
  then obtain s where s: "?t = Some s" by blast
  have "map_option closed ?t = Some False"
    "map_option buffered ?t = Some (map (\<lambda>v. Some (Value v)) [4, 5])"
    by code_simp+
  then have h: "\<not> closed s" "buffered s = map (\<lambda>v. Some (Value v)) [4, 5]"
    using s by simp_all
  show ?thesis
    using C2_close_drains_then_reports [OF s h, of "Some ''boom''" 2] s h by blast
qed

text \<open>
  Claim C3. On an open channel that holds nothing, reader A calls \<^verbatim>\<open>read()\<close> and then
  reader B does. Both wait, on the promises \<open>a\<close> and \<open>b\<close>, and their resolvers are queued
  in that order. One write of \<open>v\<close> then settles A's promise with
  \<^verbatim>\<open>{closed: false, value: v}\<close>, B's promise stays pending, and the resolver queue holds
  B's resolver alone: the write has removed and called the earliest resolver.
\<close>

theorem C3_earliest_reader_served:
  assumes "state_after ops = Some s"
    and "\<not> closed s"
    and "size_q (promises s) = 0"
    and "size_q (resolvers s) = 0"
  shows "\<exists>a b s2 s3.
           run [Read, Read] s = Inr ([ReadCalled (Awaiting a), ReadCalled (Awaiting b)], s2)
         \<and> outcome s2 (Awaiting a) = Pending \<and> outcome s2 (Awaiting b) = Pending
         \<and> elems (resolvers s2) = [a, b]
         \<and> write_ch v s2 = Inr (Value v, s3)
         \<and> outcome s3 (Awaiting a) = Got (Value v) \<and> outcome s3 (Awaiting b) = Pending
         \<and> elems (resolvers s3) = [b]"
proof -
  have inv: "chan_inv s"
    using assms(1) by (rule state_after_inv)
  have e: "elems (promises s) = []" "elems (resolvers s) = []"
    using inv assms(3,4) by (simp_all add: chan_inv_def size_zero_iff)
  let ?a = "length (settled s)"
  obtain s1 where s1: "read s = (Awaiting ?a, s1)"
    "elems (promises s1) = []" "elems (resolvers s1) = [?a]"
    "settled s1 = settled s @ [None]" "closed s1 = closed s"
    using read_wait [OF inv assms(2) e(1)] e(2) by auto
  have inv1: "chan_inv s1"
    using chan_inv_read [OF inv] s1(1) by auto
  have o1: "\<not> closed s1"
    using s1(5) assms(2) by simp
  let ?b = "length (settled s1)"
  obtain s2 where s2: "read s1 = (Awaiting ?b, s2)"
    "elems (promises s2) = []" "elems (resolvers s2) = [?a, ?b]"
    "settled s2 = settled s1 @ [None]" "closed s2 = closed s1"
    using read_wait [OF inv1 o1 s1(2)] s1(3) by auto
  have inv2: "chan_inv s2"
    using chan_inv_read [OF inv1] s2(1) by auto
  have o2: "\<not> closed s2"
    using s2(5) o1 by simp
  obtain s3 where s3: "write_ch v s2 = Inr (Value v, s3)"
    "elems (resolvers s3) = [?b]" "settled s3 = (settled s2)[?a := Some (Value v)]"
    using write_serve [OF inv2 o2 s2(3), of v] by blast
  have st2: "settled s2 = settled s @ [None, None]"
    by (simp add: s2 s1)
  have r: "run [Read, Read] s = Inr ([ReadCalled (Awaiting ?a), ReadCalled (Awaiting ?b)], s2)"
    by (simp add: s1 s2)
  have p: "outcome s2 (Awaiting ?a) = Pending" "outcome s2 (Awaiting ?b) = Pending"
    "outcome s3 (Awaiting ?a) = Got (Value v)" "outcome s3 (Awaiting ?b) = Pending"
    by (simp_all add: outcome_def s3 st2 s1(4) nth_append)
  show ?thesis
    using r p s2(3) s3(1,2) by blast
qed

theorem C3_earliest_reader_served_witness:
  "\<exists>s a b s2 s3. state_after [Write (1::int), Read] = Some (s :: (int, unit) channel)
      \<and> \<not> closed s \<and> size_q (promises s) = 0 \<and> size_q (resolvers s) = 0
      \<and> run [Read, Read] s = Inr ([ReadCalled (Awaiting a), ReadCalled (Awaiting b)], s2)
      \<and> outcome s2 (Awaiting a) = Pending \<and> outcome s2 (Awaiting b) = Pending
      \<and> elems (resolvers s2) = [a, b]
      \<and> write_ch 9 s2 = Inr (Value 9, s3)
      \<and> outcome s3 (Awaiting a) = Got (Value 9) \<and> outcome s3 (Awaiting b) = Pending
      \<and> elems (resolvers s3) = [b]"
proof -
  let ?t = "state_after [Write (1::int), Read] :: (int, unit) channel option"
  have "?t \<noteq> None" by code_simp
  then obtain s where s: "?t = Some s" by blast
  have "map_option closed ?t = Some False" "map_option queue_sizes ?t = Some (0, 0)"
    by code_simp+
  then have h: "\<not> closed s" "size_q (promises s) = 0" "size_q (resolvers s) = 0"
    using s by (simp_all add: queue_sizes_def)
  show ?thesis
    using C3_earliest_reader_served [OF s h, of 9] s h by blast
qed

text \<open>
  Claim C4. \<^verbatim>\<open>close\<close> is idempotent and the first close's error is permanent. On an open
  channel the first \<^verbatim>\<open>close\<close>, called with the error \<open>e1\<close> or with none (\<open>e1 = None\<close>),
  leaves the state \<^verbatim>\<open>{closed: true, error: e1}\<close>. Every later \<^verbatim>\<open>close\<close>, with any error or
  none, returns the channel unchanged, and after a later \<^verbatim>\<open>close(e2)\<close> followed by any
  further calls the state is still \<^verbatim>\<open>{closed: true, error: e1}\<close>. With \<open>e1 = None\<close> this is
  \<^verbatim>\<open>close()\<close> followed by \<^verbatim>\<open>close(e2)\<close>: the state stays
  \<^verbatim>\<open>{closed: true, error: undefined}\<close>.
\<close>

theorem C4_first_close_sticks:
  assumes "state_after ops = Some s"
    and "\<not> closed s"
  shows "\<exists>s1. close e1 s = Some s1
           \<and> state s1 = (True, e1)
           \<and> (\<forall>e. close e s1 = Some s1)
           \<and> (\<forall>e2 later. \<exists>evs s2. run (Close e2 # later) s1 = Inr (evs, s2)
                                   \<and> state s2 = (True, e1))"
proof -
  have inv: "chan_inv s"
    using assms(1) by (rule state_after_inv)
  obtain s1 where s1: "close e1 s = Some s1" "chan_inv s1" "closed s1" "error s1 = e1"
    using close_open_props [OF inv assms(2), of e1] by blast
  have "\<exists>evs s2. run (Close e2 # later) s1 = Inr (evs, s2) \<and> state s2 = (True, e1)"
    for e2 later
  proof -
    obtain evs s2 where r: "run (Close e2 # later) s1 = Inr (evs, s2)"
      using chan_inv_run [OF s1(2)] by blast
    have "closed s2 \<and> error s2 = error s1"
      using run_closed [OF s1(3) r] .
    then show ?thesis
      using r s1(4) by (simp add: state_def)
  qed
  then show ?thesis
    using s1 by (simp add: state_def close_closed)
qed

theorem C4_first_close_sticks_witness:
  "\<exists>s s1 s1'. state_after [Write (1::int), Read, Read] = Some s
      \<and> \<not> closed s
      \<and> close None s = Some s1
      \<and> state s1 = (True, None)
      \<and> (\<forall>e. close e s1 = Some s1)
      \<and> (\<forall>e2 later. \<exists>evs s2. run (Close e2 # later) s1 = Inr (evs, s2)
                              \<and> state s2 = (True, None))
      \<and> close (Some ''first'') s = Some s1'
      \<and> state s1' = (True, Some ''first'')
      \<and> (\<forall>e. close e s1' = Some s1')
      \<and> (\<forall>e2 later. \<exists>evs s2. run (Close e2 # later) s1' = Inr (evs, s2)
                              \<and> state s2 = (True, Some ''first''))"
proof -
  let ?t = "state_after [Write (1::int), Read, Read] :: (int, string) channel option"
  have "?t \<noteq> None" by code_simp
  then obtain s where s: "?t = Some s" by blast
  have "map_option closed ?t = Some False"
    by code_simp
  then have h: "\<not> closed s"
    using s by simp
  obtain s1 where s1: "close None s = Some s1" "state s1 = (True, None)"
    "\<forall>e. close e s1 = Some s1"
    "\<forall>e2 later. \<exists>evs s2. run (Close e2 # later) s1 = Inr (evs, s2) \<and> state s2 = (True, None)"
    using C4_first_close_sticks [OF s h, of None] by blast
  obtain s1' where s1': "close (Some ''first'') s = Some s1'" "state s1' = (True, Some ''first'')"
    "\<forall>e. close e s1' = Some s1'"
    "\<forall>e2 later. \<exists>evs s2. run (Close e2 # later) s1' = Inr (evs, s2)
                    \<and> state s2 = (True, Some ''first'')"
    using C4_first_close_sticks [OF s h, of "Some ''first''"] by blast
  show ?thesis
    using s h s1 s1' by blast
qed

text \<open>
  Claim C5. On a closed channel \<^verbatim>\<open>write(v)\<close> returns \<^verbatim>\<open>{closed: true, error}\<close> with the stored
  error (which may be absent) and the channel is exactly as before: both queues, the
  closed flag, the error and every promise.
\<close>

theorem C5_write_on_closed:
  assumes "closed s"
  shows "write_ch v s = Inr (Closed (error s), s)"
  using assms by (simp add: write_ch_def split: option.split)

theorem C5_write_on_closed_witness:
  "\<exists>s. state_after [Write (1::int), Read, Read, Close (Some ''boom'')] = Some s
      \<and> closed s \<and> write_ch 2 s = Inr (Closed (error s), s)"
proof -
  let ?t = "state_after [Write (1::int), Read, Read, Close (Some ''boom'')]
              :: (int, string) channel option"
  have "?t \<noteq> None" by code_simp
  then obtain s where s: "?t = Some s" by blast
  have "map_option closed ?t = Some True"
    by code_simp
  then have h: "closed s"
    using s by simp
  show ?thesis
    using C5_write_on_closed [OF h, of 2] s h by blast
qed

text \<open>
  Claim C6. The values 0, 1, 2 are written into an open channel that holds nothing, and
  the channel is closed. The async iteration then yields exactly 0, 1, 2; after them it
  returns if the channel was closed without an error, and throws \<open>e\<close> if it was closed
  with the error \<open>e\<close>.
\<close>

theorem C6_iteration_after_close:
  assumes "state_after ops = Some s"
    and "\<not> closed s"
    and "size_q (promises s) = 0"
    and "size_q (resolvers s) = 0"
  shows "\<exists>evs s1 s2. run [Write 0, Write 1, Write 2, Close err] s = Inr (evs, s1)
           \<and> asyncIterator s1 []
               = Some (([0, 1, 2 :: int],
                        case err of None \<Rightarrow> Returned | Some e \<Rightarrow> Thrown e), s2)"
proof -
  have inv: "chan_inv s"
    using assms(1) by (rule state_after_inv)
  have e: "elems (promises s) = []" "elems (resolvers s) = []"
    using inv assms(3,4) by (simp_all add: chan_inv_def size_zero_iff)
  obtain s0 where s0: "run (map Write [0, 1, 2]) s
                         = Inr (map (\<lambda>v. Written (Value v)) [0, 1, 2 :: int], s0)"
    "chan_inv s0" "\<not> closed s0"
    "buffered s0 = buffered s @ map (\<lambda>v. Some (Value v)) [0, 1, 2]"
    using run_writes_buffer [OF inv assms(2) e(2), of "[0, 1, 2]"] by blast
  obtain s1 where s1: "close err s0 = Some s1" "chan_inv s1" "closed s1" "error s1 = err"
    "buffered s1 = buffered s0"
    using close_open_props [OF s0(2,3), of err] by blast
  have b1: "buffered s1 = map (\<lambda>v. Some (Value v)) [0, 1, 2]"
    using s1(5) s0(4) e(1) by (simp add: empty_buffered)
  obtain s2 where s2: "asyncIterator s1 []
      = Some (([] @ [0, 1, 2], case error s1 of None \<Rightarrow> Returned | Some e \<Rightarrow> Thrown e), s2)"
    using asyncIterator_closed [OF s1(2,3) b1, of "[]"] by blast
  have "run ([Write 0, Write 1, Write 2] @ [Close err]) s
          = Inr (map (\<lambda>v. Written (Value v)) [0, 1, 2] @ [CloseReturned], s1)"
    using s0(1) s1(1) by (simp only: run_append) simp
  then show ?thesis
    using s2 s1(4) by auto
qed

theorem C6_iteration_after_close_witness:
  "\<exists>s evs s1 s2 evs' s1' s2'.
        state_after [] = Some (s :: (int, string) channel)
      \<and> \<not> closed s \<and> size_q (promises s) = 0 \<and> size_q (resolvers s) = 0
      \<and> run [Write 0, Write 1, Write 2, Close None] s = Inr (evs, s1)
      \<and> asyncIterator s1 [] = Some (([0, 1, 2], Returned), s2)
      \<and> run [Write 0, Write 1, Write 2, Close (Some ''boom'')] s = Inr (evs', s1')
      \<and> asyncIterator s1' [] = Some (([0, 1, 2], Thrown ''boom''), s2')"
proof -
  let ?t = "state_after [] :: (int, string) channel option"
  have "?t \<noteq> None" by code_simp
  then obtain s where s: "?t = Some s" by blast
  have "map_option closed ?t = Some False" "map_option queue_sizes ?t = Some (0, 0)"
    by code_simp+
  then have h: "\<not> closed s" "size_q (promises s) = 0" "size_q (resolvers s) = 0"
    using s by (simp_all add: queue_sizes_def)
  show ?thesis
    using C6_iteration_after_close [OF s h, of None]
      C6_iteration_after_close [OF s h, of "Some ''boom''"] s h
    by (simp del: run.simps)
qed

text \<open>
  Claim C7 says that the two queues have equal sizes in every reachable state. They do
  not: after one write on a fresh channel the promise queue holds one promise and the
  resolver queue is empty.
\<close>

theorem C7_sizes_differ_counterexample:
  "map_option queue_sizes (state_after [Write (0::int)] :: (int, unit) channel option)
     = Some (1, 0)"
  by code_simp

text \<open>
  Claim C7, amended. The queues are filled in lockstep, not emptied in lockstep: in every
  reachable state both queues have served the same number of \<^verbatim>\<open>enqueue\<close> calls, and
  \<^verbatim>\<open>addPromise\<close> adds one entry to each of them.
\<close>

theorem C7_lockstep_enqueues:
  assumes "state_after ops = Some s"
  shows "enqueued_total (promises s) = enqueued_total (resolvers s)
       \<and> enqueued_total (promises (addPromise s)) = enqueued_total (promises s) + 1
       \<and> enqueued_total (resolvers (addPromise s)) = enqueued_total (resolvers s) + 1
       \<and> queue_sizes (addPromise s) = (size_q (promises s) + 1, size_q (resolvers s) + 1)"
  using state_after_inv [OF assms]
  by (simp add: chan_inv_def enqueued_total_def queue_sizes_def)

theorem C7_lockstep_enqueues_witness:
  "\<exists>s. state_after [Write (0::int), Read, Read] = Some (s :: (int, unit) channel)
      \<and> enqueued_total (promises s) = enqueued_total (resolvers s)
      \<and> enqueued_total (promises (addPromise s)) = enqueued_total (promises s) + 1
      \<and> enqueued_total (resolvers (addPromise s)) = enqueued_total (resolvers s) + 1
      \<and> queue_sizes (addPromise s) = (size_q (promises s) + 1, size_q (resolvers s) + 1)"
proof -
  let ?t = "state_after [Write (0::int), Read, Read] :: (int, unit) channel option"
  have "?t \<noteq> None" by code_simp
  then obtain s where s: "?t = Some s" by blast
  show ?thesis
    using C7_lockstep_enqueues [OF s] s by blast
qed

text \<open>
  Claim C8 says that an iterator yields exactly the elements present when it was
  requested, even with \<^verbatim>\<open>enqueue\<close> calls interleaved. It does not: the iterator is
  requested on a queue that holds 1 alone, 2 is enqueued before the first \<^verbatim>\<open>next()\<close>,
  and the iterator yields 1 and 2.
\<close>

theorem C8_iterator_sees_later_enqueue_counterexample:
  "elems (enqueue (1::int) createLinkedListQueue) = [1]
   \<and> fst (qrun [Enqueue 2, Next, Next, Next] (enqueue (1::int) createLinkedListQueue, SuspendedStart))
       = [Enqueued, Yielded (Some 1), Yielded (Some 2), Yielded None]"
  by code_simp

text \<open>
  Claim C8, amended. For every queue reached from the empty queue, an iterator that is
  consumed to its end with no \<^verbatim>\<open>enqueue\<close> or \<^verbatim>\<open>dequeue\<close> in between yields exactly the
  elements of the queue, in FIFO order (the sequence of the specification). Consuming
  an iterator removes nothing, also with \<^verbatim>\<open>enqueue\<close> and \<^verbatim>\<open>dequeue\<close> calls interleaved:
  the queue (its size included) and the results of all \<^verbatim>\<open>dequeue\<close> calls are what they
  are when the \<^verbatim>\<open>next()\<close> calls are left out.
\<close>

theorem C8_iteration_undisturbed:
  "for_of (queue_after ops) (\<lambda>x xs. xs @ [x]) SuspendedStart [] = Some (fifo_spec ops [])
   \<and> fst (snd (qrun ops' (q, g))) = fst (snd (qrun (filter (\<lambda>x. \<not> is_Next x) ops') (q, g)))
   \<and> filter (\<lambda>out. \<not> is_Yielded out) (fst (qrun ops' (q, g)))
       = fst (qrun (filter (\<lambda>x. \<not> is_Next x) ops') (q, g))"
proof -
  have "fold (\<lambda>x xs. xs @ [x]) ys zs = zs @ ys" for ys zs :: "'a list"
    by (induction ys arbitrary: zs) simp_all
  then have "for_of (queue_after ops) (\<lambda>x xs. xs @ [x]) SuspendedStart [] = Some (fifo_spec ops [])"
    using queue_after_refines [of ops] by (simp add: for_of_fold)
  then show ?thesis
    using qrun_without_Next [of ops' q g g] by simp
qed

theorem C8_iteration_undisturbed_witness:
  "for_of (queue_after [Enqueue (1::int), Enqueue 2, Dequeue, Enqueue 3])
     (\<lambda>x xs. xs @ [x]) SuspendedStart [] = Some [2, 3]
   \<and> fst (snd (qrun [Next, Enqueue 4, Next, Dequeue, Next]
                  (queue_after [Enqueue (1::int), Enqueue 2], SuspendedStart)))
       = fst (snd (qrun [Enqueue 4, Dequeue]
                     (queue_after [Enqueue (1::int), Enqueue 2], SuspendedStart)))
   \<and> fst (qrun [Enqueue 4, Dequeue] (queue_after [Enqueue (1::int), Enqueue 2], SuspendedStart))
       = [Enqueued, Dequeued (Some 1)]"
proof -
  have "fst (qrun [Next, Enqueue 4, Next, Dequeue, Next]
               (queue_after [Enqueue (1::int), Enqueue 2], SuspendedStart))
          = [Yielded (Some 1), Enqueued, Yielded (Some 2), Dequeued (Some 1), Yielded (Some 4)]"
    by code_simp
  then show ?thesis
    using C8_iteration_undisturbed
            [of "[Enqueue (1::int), Enqueue 2, Dequeue, Enqueue 3]"
                "[Next, Enqueue 4, Next, Dequeue, Next]"
                "queue_after [Enqueue (1::int), Enqueue 2]" SuspendedStart]
    by simp
qed

text \<open>
  Claim C9. In every state that \<^verbatim>\<open>write\<close>, \<^verbatim>\<open>read\<close> and \<^verbatim>\<open>close\<close> calls can reach from a
  fresh channel, one of the two queues is empty: the smaller of the two sizes is 0.
\<close>

theorem C9_one_queue_empty:
  assumes "state_after ops = Some s"
  shows "min (size_q (promises s)) (size_q (resolvers s)) = 0"
proof -
  have inv: "chan_inv s"
    using assms by (rule state_after_inv)
  then have "elems (promises s) = [] \<or> elems (resolvers s) = []"
    by (simp add: chan_inv_def)
  moreover have "size_q (promises s) = int (length (elems (promises s)))"
    "size_q (resolvers s) = int (length (elems (resolvers s)))"
    using inv by (simp_all add: chan_inv_def size_wf)
  ultimately show ?thesis
    by auto
qed

theorem C9_one_queue_empty_witness:
  "\<exists>s. state_after [Write (1::int), Write 2, Read, Read, Read, Read, Write 3, Close None, Read]
         = Some (s :: (int, unit) channel)
      \<and> min (size_q (promises s)) (size_q (resolvers s)) = 0"
proof -
  let ?t = "state_after [Write (1::int), Write 2, Read, Read, Read, Read, Write 3, Close None, Read]
              :: (int, unit) channel option"
  have "?t \<noteq> None" by code_simp
  then obtain s where s: "?t = Some s" by blast
  show ?thesis
    using C9_one_queue_empty [OF s] s by blast
qed

text \<open>
  Claim C10. In every reachable state, the \<^verbatim>\<open>dequeue\<close> behind the guard of \<^verbatim>\<open>write\<close> and
  the one behind the guard of \<^verbatim>\<open>read\<close> do not return \<^verbatim>\<open>null\<close>: \<^verbatim>\<open>write\<close> does not
  throw and \<^verbatim>\<open>read\<close> does not return a promise for \<^verbatim>\<open>null\<close>.
\<close>

theorem C10_dequeue_never_null:
  assumes "state_after ops = Some s"
  shows "fst (dequeue (resolvers (if size_q (resolvers s) = 0 then addPromise s else s))) \<noteq> None
       \<and> fst (dequeue (promises (if size_q (promises s) = 0 then addPromise s else s))) \<noteq> None
       \<and> write_ch v s \<noteq> Inl NotAFunction
       \<and> fst (read s) \<noteq> Null"
proof -
  have inv: "chan_inv s"
    using assms by (rule state_after_inv)
  have wf: "wf_queue (promises s)" "wf_queue (resolvers s)"
    using inv by (simp_all add: chan_inv_def)
  have nonempty: "fst (dequeue q) \<noteq> None"
    if wfq: "wf_queue q" and ne: "elems q \<noteq> []" for q :: "promise queue"
  proof -
    obtain x xs where "elems q = x # xs"
      using ne by (cases "elems q") auto
    then show ?thesis
      using dequeue_Cons [OF wfq] by fastforce
  qed
  have r: "fst (dequeue (resolvers (if size_q (resolvers s) = 0 then addPromise s else s))) \<noteq> None"
  proof (cases "size_q (resolvers s) = 0")
    case True
    then have "elems (resolvers s) = []"
      using wf by (simp add: size_zero_iff)
    then have "wf_queue (resolvers (addPromise s))" "elems (resolvers (addPromise s)) \<noteq> []"
      using wf by (simp_all add: wf_enqueue elems_enqueue)
    from nonempty [OF this] show ?thesis
      using True by simp
  next
    case False
    then have "elems (resolvers s) \<noteq> []"
      using wf by (simp add: size_zero_iff)
    from nonempty [OF wf(2) this] show ?thesis
      using False by simp
  qed
  have p: "fst (dequeue (promises (if size_q (promises s) = 0 then addPromise s else s))) \<noteq> None"
  proof (cases "size_q (promises s) = 0")
    case True
    then have "elems (promises s) = []"
      using wf by (simp add: size_zero_iff)
    then have "wf_queue (promises (addPromise s))" "elems (promises (addPromise s)) \<noteq> []"
      using wf by (simp_all add: wf_enqueue elems_enqueue)
    from nonempty [OF this] show ?thesis
      using True by simp
  next
    case False
    then have "elems (promises s) \<noteq> []"
      using wf by (simp add: size_zero_iff)
    from nonempty [OF wf(1) this] show ?thesis
      using False by simp
  qed
  have w: "write_ch v s \<noteq> Inl NotAFunction"
    using chan_inv_write [OF inv, of v] by auto
  have rd: "fst (read s) \<noteq> Null"
    using chan_inv_read [OF inv] by auto
  show ?thesis
    using r p w rd by blast
qed

theorem C10_dequeue_never_null_witness:
  "\<exists>s. state_after [Read, Read, Write (1::int), Write 2, Write 3] = Some (s :: (int, unit) channel)
      \<and> fst (dequeue (resolvers (if size_q (resolvers s) = 0 then addPromise s else s))) \<noteq> None
      \<and> fst (dequeue (promises (if size_q (promises s) = 0 then addPromise s else s))) \<noteq> None
      \<and> write_ch 4 s \<noteq> Inl NotAFunction
      \<and> fst (read s) \<noteq> Null"
proof -
  let ?t = "state_after [Read, Read, Write (1::int), Write 2, Write 3] :: (int, unit) channel option"
  have "?t \<noteq> None" by code_simp
  then obtain s where s: "?t = Some s" by blast
  show ?thesis
    using C10_dequeue_never_null [OF s, of 4] s by blast
qed

end
